theory Spec2Isabelle
  imports Complex_Main "HOL-Library.Word" "HOL-Library.Multiset"
begin

section \<open>JavaScript strings\<close>

text \<open>
  A JavaScript string is a sequence of UTF-16 code units. \<open>js\<close> turns an ASCII literal
  into such a sequence, one code unit per character.
\<close>

type_synonym code_unit = "16 word"
type_synonym jsstring = "code_unit list"

definition cu :: "char \<Rightarrow> code_unit" where
  "cu c = of_nat (of_char c)"

definition js :: "string \<Rightarrow> jsstring" where
  "js s = map cu s"

abbreviation LF :: code_unit where "LF \<equiv> 0x0A"
abbreviation DQUOTE :: code_unit where "DQUOTE \<equiv> 0x22"
abbreviation COMMA :: code_unit where "COMMA \<equiv> 0x2C"
abbreviation SLASH :: code_unit where "SLASH \<equiv> 0x2F"
abbreviation DASH :: code_unit where "DASH \<equiv> 0x2D"
abbreviation PLUS :: code_unit where "PLUS \<equiv> 0x2B"
abbreviation DOT :: code_unit where "DOT \<equiv> 0x2E"
abbreviation ZERO :: code_unit where "ZERO \<equiv> 0x30"

text \<open>
  The code units that \<open>String.prototype.trim\<close>, \<open>parseInt\<close> and the String-to-Number
  conversion skip: ECMAScript's WhiteSpace (TAB, VT, FF, ZWNBSP and the Unicode space
  separators) and LineTerminator (LF, CR, LS, PS).
\<close>

definition isWhiteSpace :: "code_unit \<Rightarrow> bool" where
  "isWhiteSpace c \<longleftrightarrow>
     c \<in> set [0x09, 0x0A, 0x0B, 0x0C, 0x0D, 0x20, 0xA0, 0x1680,
              0x2028, 0x2029, 0x202F, 0x205F, 0x3000, 0xFEFF]
     \<or> (0x2000 \<le> c \<and> c \<le> 0x200A)"

definition trimStart :: "jsstring \<Rightarrow> jsstring" where
  "trimStart s = dropWhile isWhiteSpace s"

definition trimEnd :: "jsstring \<Rightarrow> jsstring" where
  "trimEnd s = rev (dropWhile isWhiteSpace (rev s))"

definition trim :: "jsstring \<Rightarrow> jsstring" where
  "trim s = trimEnd (trimStart s)"

text \<open>\<open>s.split(c)\<close> for a one-unit separator: \<open>cur\<close> is the piece being read.\<close>

fun split_from :: "code_unit \<Rightarrow> jsstring \<Rightarrow> jsstring \<Rightarrow> jsstring list" where
  "split_from c cur [] = [cur]"
| "split_from c cur (x # xs) =
     (if x = c then cur # split_from c [] xs else split_from c (cur @ [x]) xs)"

definition split_on :: "code_unit \<Rightarrow> jsstring \<Rightarrow> jsstring list" where
  "split_on c s = split_from c [] s"

text \<open>\<open>s.padStart(2, '0')\<close>.\<close>

definition padStart2 :: "jsstring \<Rightarrow> jsstring" where
  "padStart2 s = (if 2 \<le> length s then s else replicate (2 - length s) ZERO @ s)"

section \<open>The CSV row parser\<close>

text \<open>
  \<open>parseCSVLine\<close> walks the line once; its three variables \<open>values\<close>, \<open>current\<close> and
  \<open>inQuotes\<close> are the arguments of the loop.
\<close>

fun parseCSVLine_loop ::
  "jsstring \<Rightarrow> jsstring list \<Rightarrow> jsstring \<Rightarrow> bool \<Rightarrow> jsstring list" where
  "parseCSVLine_loop [] values current inQuotes = values @ [trim current]"
| "parseCSVLine_loop (ch # rest) values current inQuotes =
     (if ch = DQUOTE then parseCSVLine_loop rest values current (\<not> inQuotes)
      else if ch = COMMA \<and> \<not> inQuotes
        then parseCSVLine_loop rest (values @ [trim current]) [] inQuotes
      else parseCSVLine_loop rest values (current @ [ch]) inQuotes)"

definition parseCSVLine :: "jsstring \<Rightarrow> jsstring list" where
  "parseCSVLine line = parseCSVLine_loop line [] [] False"

text \<open>
  The specification's count: the commas of a line that lie outside quoted mode, where
  every double quote toggles the mode.
\<close>

fun separators :: "bool \<Rightarrow> jsstring \<Rightarrow> nat" where
  "separators quoted [] = 0"
| "separators quoted (ch # rest) =
     (if ch = DQUOTE then separators (\<not> quoted) rest
      else if ch = COMMA \<and> \<not> quoted then Suc (separators quoted rest)
      else separators quoted rest)"

text \<open>The mode in which the parser is after a text: inside a quoted field or not.\<close>

fun in_quotes :: "bool \<Rightarrow> jsstring \<Rightarrow> bool" where
  "in_quotes quoted [] = quoted"
| "in_quotes quoted (ch # rest) = in_quotes (if ch = DQUOTE then \<not> quoted else quoted) rest"

section \<open>Numbers read from text\<close>

text \<open>
  \<open>parseInt(string, 10)\<close>: leading white space is skipped, one sign is read, then the
  longest run of decimal digits; no digit gives \<open>NaN\<close>, which is \<open>None\<close> here. The
  result is the exact integer the digits denote (JavaScript rounds it to the nearest
  double once it exceeds 53 bits, and reads \<open>-0\<close> as a zero).
\<close>

definition isDigit :: "code_unit \<Rightarrow> bool" where
  "isDigit c \<longleftrightarrow> 0x30 \<le> c \<and> c \<le> 0x39"

definition digitValue :: "code_unit \<Rightarrow> nat" where
  "digitValue c = unat c - 48"

definition decimalValue :: "jsstring \<Rightarrow> nat" where
  "decimalValue ds = foldl (\<lambda>acc c. 10 * acc + digitValue c) 0 ds"

definition parseInt :: "jsstring \<Rightarrow> int option" where
  "parseInt string =
     (let S = trimStart string;
          sign = (if S \<noteq> [] \<and> hd S = DASH then - 1 else 1);
          S' = (if S \<noteq> [] \<and> (hd S = PLUS \<or> hd S = DASH) then tl S else S);
          Z = takeWhile isDigit S'
      in if Z = [] then None else Some (sign * int (decimalValue Z)))"

section \<open>Draw records\<close>

text \<open>
  A draw number is a Number holding an integer, which is what \<open>parseCSV\<close> builds, or a
  String, which the local JSON file may hold instead. \<open>NaN\<close> is not a draw number: JSON
  cannot write it and \<open>parseCSV\<close> drops the row.
\<close>

datatype jsval = Num int | Str jsstring

record draw_record =
  drawNumber :: jsval
  date :: jsstring
  numbers :: "int list"

datatype error = TypeError

section \<open>The CSV record extractor\<close>

text \<open>A template literal prints a missing value as \<open>undefined\<close>.\<close>

fun template_str :: "jsstring option \<Rightarrow> jsstring" where
  "template_str None = js ''undefined''"
| "template_str (Some s) = s"

text \<open>
  The date conversion of \<open>parseCSV\<close>: \<open>[d, m, y] = dateStr.split('/')\<close> binds the first
  three pieces, a missing one being undefined; \<open>m.padStart\<close> on an undefined \<open>m\<close> would
  throw a TypeError.
\<close>

definition isoDate_of :: "jsstring \<Rightarrow> error + jsstring" where
  "isoDate_of dateStr =
     (if SLASH \<in> set dateStr then
        (case split_on SLASH dateStr of
           d # m # rest \<Rightarrow>
             (let y = (case rest of [] \<Rightarrow> None | y # _ \<Rightarrow> Some y)
              in Inr (template_str y @ [DASH] @ padStart2 m @ [DASH] @ padStart2 d))
         | _ \<Rightarrow> Inl TypeError)
      else Inr dateStr)"

text \<open>
  The body of the loop of \<open>parseCSV\<close> for one line: \<open>Inr None\<close> when the line is skipped,
  \<open>Inr (Some r)\<close> when \<open>r\<close> is pushed.
\<close>

definition parse_row :: "jsstring \<Rightarrow> error + draw_record option" where
  "parse_row line =
     (let row = parseCSVLine line in
      if length row < 7 then Inr None
      else
        let drawNumber = parseInt (filter isDigit (row ! 0));
            dateStr = trim (row ! 1);
            numbers = map the (filter (\<lambda>n. n \<noteq> None) (map parseInt (take 5 (drop 2 row))))
        in case drawNumber of
             None \<Rightarrow> Inr None
           | Some n \<Rightarrow>
               if length numbers = 5 then
                 (case isoDate_of dateStr of
                    Inl e \<Rightarrow> Inl e
                  | Inr isoDate \<Rightarrow>
                      Inr (Some \<lparr>drawNumber = Num n, date = isoDate, numbers = numbers\<rparr>))
               else Inr None)"

fun parseCSV_loop :: "jsstring list \<Rightarrow> draw_record list \<Rightarrow> error + draw_record list" where
  "parseCSV_loop [] results = Inr results"
| "parseCSV_loop (line # rest) results =
     (case parse_row line of
        Inl e \<Rightarrow> Inl e
      | Inr None \<Rightarrow> parseCSV_loop rest results
      | Inr (Some r) \<Rightarrow> parseCSV_loop rest (results @ [r]))"

text \<open>\<open>filter(Boolean)\<close> drops the empty lines; the loop starts at index 1.\<close>

definition parseCSV :: "jsstring \<Rightarrow> error + draw_record list" where
  "parseCSV csvText =
     (let lines = filter (\<lambda>l. l \<noteq> []) (split_on LF csvText)
      in parseCSV_loop (drop 1 lines) [])"

text \<open>What one data line adds to the results of \<open>parseCSV\<close>.\<close>

definition row_records :: "jsstring \<Rightarrow> draw_record list" where
  "row_records line = (case parse_row line of Inr (Some r) \<Rightarrow> [r] | _ \<Rightarrow> [])"

text \<open>
  The specification's CSV text: lines joined by line feeds, a header line first. A data
  line is well formed when it has at least 7 fields, its first field contains a digit and
  each of the fields 2 to 6 parses as an integer.
\<close>

fun join_lines :: "jsstring list \<Rightarrow> jsstring" where
  "join_lines [] = []"
| "join_lines [l] = l"
| "join_lines (l # ls) = l @ LF # join_lines ls"

definition well_formed :: "jsstring \<Rightarrow> bool" where
  "well_formed line \<longleftrightarrow>
     7 \<le> length (parseCSVLine line)
     \<and> (\<exists>c\<in>set (parseCSVLine line ! 0). isDigit c)
     \<and> list_all (\<lambda>f. parseInt f \<noteq> None) (take 5 (drop 2 (parseCSVLine line)))"

section \<open>Numbers and loose equality\<close>

text \<open>
  The value of a Number: \<open>NaN\<close>, an infinity or a finite value, kept exact (a double rounds
  a decimal literal of more than 17 significant digits and overflows at about
  \<open>1.8e308\<close>); the two zeros are one value.
\<close>

datatype jsnumber = NaN | PosInf | NegInf | Fin rat

fun js_negate :: "jsnumber \<Rightarrow> jsnumber" where
  "js_negate NaN = NaN"
| "js_negate PosInf = NegInf"
| "js_negate NegInf = PosInf"
| "js_negate (Fin q) = Fin (- q)"

text \<open>The \<open>-\<close> of two Numbers.\<close>

fun js_minus :: "jsnumber \<Rightarrow> jsnumber \<Rightarrow> jsnumber" where
  "js_minus NaN y = NaN"
| "js_minus x NaN = NaN"
| "js_minus PosInf PosInf = NaN"
| "js_minus NegInf NegInf = NaN"
| "js_minus PosInf y = PosInf"
| "js_minus NegInf y = NegInf"
| "js_minus (Fin p) PosInf = NegInf"
| "js_minus (Fin p) NegInf = PosInf"
| "js_minus (Fin p) (Fin q) = Fin (p - q)"

text \<open>
  The conversion of a String to a Number follows the grammar of StringNumericLiteral:
  optional white space around a signed decimal literal (digits, fraction, exponent, or
  \<open>Infinity\<close>) or an unsigned binary, octal or hexadecimal integer; the empty string is 0
  and any other text is \<open>NaN\<close>.
\<close>

definition isHexDigit :: "code_unit \<Rightarrow> bool" where
  "isHexDigit c \<longleftrightarrow> isDigit c \<or> (0x41 \<le> c \<and> c \<le> 0x46) \<or> (0x61 \<le> c \<and> c \<le> 0x66)"

definition hexValue :: "code_unit \<Rightarrow> nat" where
  "hexValue c = (if isDigit c then unat c - 48 else if c \<le> 0x46 then unat c - 55 else unat c - 87)"

definition radixLiteral :: "nat \<Rightarrow> jsstring \<Rightarrow> jsnumber" where
  "radixLiteral radix ds =
     (if ds \<noteq> [] \<and> list_all (\<lambda>c. isHexDigit c \<and> hexValue c < radix) ds
      then Fin (of_nat (foldl (\<lambda>acc c. radix * acc + hexValue c) 0 ds))
      else NaN)"

definition nonDecimalIntegerLiteral :: "jsstring \<Rightarrow> jsnumber option" where
  "nonDecimalIntegerLiteral t =
     (case t of
        z # p # ds \<Rightarrow>
          if z \<noteq> ZERO then None
          else if p = 0x62 \<or> p = 0x42 then Some (radixLiteral 2 ds)
          else if p = 0x6F \<or> p = 0x4F then Some (radixLiteral 8 ds)
          else if p = 0x78 \<or> p = 0x58 then Some (radixLiteral 16 ds)
          else None
      | _ \<Rightarrow> None)"

definition signedInteger :: "jsstring \<Rightarrow> int option" where
  "signedInteger t =
     (let ds = (if t \<noteq> [] \<and> (hd t = PLUS \<or> hd t = DASH) then tl t else t)
      in if ds \<noteq> [] \<and> list_all isDigit ds
         then Some (if hd t = DASH then - int (decimalValue ds) else int (decimalValue ds))
         else None)"

definition exponentPart :: "jsstring \<Rightarrow> int option" where
  "exponentPart t =
     (case t of
        [] \<Rightarrow> Some 0
      | c # r \<Rightarrow> if c = 0x65 \<or> c = 0x45 then signedInteger r else None)"

definition scale10 :: "nat \<Rightarrow> int \<Rightarrow> rat" where
  "scale10 m e = (if 0 \<le> e then of_nat m * 10 ^ nat e else of_nat m / 10 ^ nat (- e))"

definition strUnsignedDecimalLiteral :: "jsstring \<Rightarrow> jsnumber" where
  "strUnsignedDecimalLiteral t =
     (if t = js ''Infinity'' then PosInf
      else
        let ip = takeWhile isDigit t;
            r1 = dropWhile isDigit t;
            hasDot = (r1 \<noteq> [] \<and> hd r1 = DOT);
            fp = (if hasDot then takeWhile isDigit (tl r1) else []);
            r2 = (if hasDot then dropWhile isDigit (tl r1) else r1)
        in if ip = [] \<and> fp = [] then NaN
           else (case exponentPart r2 of
                   None \<Rightarrow> NaN
                 | Some e \<Rightarrow> Fin (scale10 (decimalValue (ip @ fp)) (e - int (length fp)))))"

definition strDecimalLiteral :: "jsstring \<Rightarrow> jsnumber" where
  "strDecimalLiteral t =
     (case t of
        [] \<Rightarrow> NaN
      | c # r \<Rightarrow>
          if c = PLUS then strUnsignedDecimalLiteral r
          else if c = DASH then js_negate (strUnsignedDecimalLiteral r)
          else strUnsignedDecimalLiteral t)"

definition StringToNumber :: "jsstring \<Rightarrow> jsnumber" where
  "StringToNumber s =
     (let t = trim s
      in if t = [] then Fin 0
         else (case nonDecimalIntegerLiteral t of
                 Some v \<Rightarrow> v
               | None \<Rightarrow> strDecimalLiteral t))"

fun ToNumber :: "jsval \<Rightarrow> jsnumber" where
  "ToNumber (Num n) = Fin (of_int n)"
| "ToNumber (Str s) = StringToNumber s"

text \<open>
  \<open>x == y\<close> on draw numbers: two values of one type are compared as they are, a Number
  and a String are compared after the String is converted to a Number.
\<close>

fun loose_eq :: "jsval \<Rightarrow> jsval \<Rightarrow> bool" where
  "loose_eq (Num a) (Num b) \<longleftrightarrow> a = b"
| "loose_eq (Str a) (Str b) \<longleftrightarrow> a = b"
| "loose_eq (Num a) (Str b) \<longleftrightarrow> Fin (of_int a) = StringToNumber b"
| "loose_eq (Str a) (Num b) \<longleftrightarrow> StringToNumber a = Fin (of_int b)"

section \<open>The result merger\<close>

text \<open>
  The merge in \<open>fetchResults\<close>: \<open>allResults\<close> starts as a copy of the local results, and
  \<open>forEach\<close> pushes a sheet result when \<open>find\<close> meets no element of \<open>allResults\<close>, as it
  is at that moment, with a loosely equal draw number.
\<close>

fun merge_forEach :: "draw_record list \<Rightarrow> draw_record list \<Rightarrow> draw_record list" where
  "merge_forEach allResults [] = allResults"
| "merge_forEach allResults (sr # rest) =
     (case find (\<lambda>r. loose_eq (drawNumber r) (drawNumber sr)) allResults of
        None \<Rightarrow> merge_forEach (allResults @ [sr]) rest
      | Some r \<Rightarrow> merge_forEach allResults rest)"

definition mergeResults :: "draw_record list \<Rightarrow> draw_record list \<Rightarrow> draw_record list" where
  "mergeResults localResults sheetResults = merge_forEach localResults sheetResults"

text \<open>A draw number that is a Number, as every record of \<open>parseCSV\<close> has.\<close>

fun isNum :: "jsval \<Rightarrow> bool" where
  "isNum (Num n) = True"
| "isNum (Str s) = False"

text \<open>
  The remote records the merge keeps, said by position: the record at index \<open>j\<close> is new
  when no local record has a loosely equal draw number and no remote record before it
  has the same draw number.
\<close>

definition is_new :: "draw_record list \<Rightarrow> draw_record list \<Rightarrow> nat \<Rightarrow> bool" where
  "is_new L R j \<longleftrightarrow>
     list_all (\<lambda>l. \<not> loose_eq (drawNumber l) (drawNumber (R ! j))) L
     \<and> list_all (\<lambda>i. drawNumber (R ! i) \<noteq> drawNumber (R ! j)) [0..<j]"

text \<open>The claim as first stated: a remote record is only compared with the local ones.\<close>

definition not_in_local :: "draw_record list \<Rightarrow> draw_record \<Rightarrow> bool" where
  "not_in_local L r \<longleftrightarrow> list_all (\<lambda>l. \<not> loose_eq (drawNumber l) (drawNumber r)) L"

section \<open>The renderer\<close>

text \<open>The comparator \<open>(a, b) => b.drawNumber - a.drawNumber\<close>.\<close>

definition compareFn :: "draw_record \<Rightarrow> draw_record \<Rightarrow> jsnumber" where
  "compareFn a b = js_minus (ToNumber (drawNumber b)) (ToNumber (drawNumber a))"

text \<open>
  \<open>Array.prototype.sort\<close> reads a \<open>NaN\<close> of the comparator as 0 and puts \<open>x\<close> after \<open>y\<close>
  when the comparison of \<open>x\<close> with \<open>y\<close> is positive. It is stable. The order in which it
  compares is left to the engine; here each element is inserted into the sorted rest.
\<close>

definition placed_after :: "draw_record \<Rightarrow> draw_record \<Rightarrow> bool" where
  "placed_after x y = (case compareFn x y of PosInf \<Rightarrow> True | Fin q \<Rightarrow> 0 < q | _ \<Rightarrow> False)"

fun sort_insert :: "draw_record \<Rightarrow> draw_record list \<Rightarrow> draw_record list" where
  "sort_insert x [] = [x]"
| "sort_insert x (y # ys) = (if placed_after x y then y # sort_insert x ys else x # y # ys)"

definition Array_sort :: "draw_record list \<Rightarrow> draw_record list" where
  "Array_sort xs = foldr sort_insert xs []"

text \<open>
  Arrays are objects: a variable holds a reference and the store holds the elements.
  \<open>fresh\<close> is the next unused reference.
\<close>

type_synonym ref = nat

record store =
  cells :: "ref \<Rightarrow> draw_record list option"
  fresh :: ref

text \<open>\<open>[...xs]\<close> and \<open>xs.slice(1)\<close> build a new array.\<close>

definition new_array :: "draw_record list \<Rightarrow> store \<Rightarrow> ref \<times> store" where
  "new_array elems h = (fresh h, h\<lparr>cells := (cells h)(fresh h \<mapsto> elems), fresh := Suc (fresh h)\<rparr>)"

text \<open>\<open>a.sort(compareFn)\<close> sorts the array that \<open>a\<close> refers to, in place.\<close>

definition sort_in_place :: "ref \<Rightarrow> store \<Rightarrow> store" where
  "sort_in_place a h =
     (case cells h a of
        None \<Rightarrow> h
      | Some elems \<Rightarrow> h\<lparr>cells := (cells h)(a \<mapsto> Array_sort elems)\<rparr>)"

text \<open>
  What \<open>displayResults\<close> writes into the two elements of the page. A card or a grid is
  the HTML built from the records it is given, so the records stand for it.
\<close>

datatype latest_view = NoResultsMessage | LatestCard draw_record

datatype previous_view = Cleared | NoPreviousMessage | ResultsGrid "draw_record list"

record page =
  latestResultEl :: latest_view
  previousResultsEl :: previous_view

text \<open>
  \<open>displayResults(data)\<close>, given the reference \<open>data.results\<close> (\<open>None\<close> when the property
  is missing). The update of the time stamp from \<open>data.lastUpdated\<close> is left out. An
  undefined \<open>sortedResults[0]\<close> would make \<open>createLatestResultHTML\<close> throw a TypeError.
\<close>

definition displayResults :: "ref option \<Rightarrow> store \<Rightarrow> error + (page \<times> store)" where
  "displayResults results h =
     (case (case results of None \<Rightarrow> None | Some a \<Rightarrow> cells h a) of
        None \<Rightarrow> Inr (\<lparr>latestResultEl = NoResultsMessage, previousResultsEl = Cleared\<rparr>, h)
      | Some elems \<Rightarrow>
          if length elems = 0
          then Inr (\<lparr>latestResultEl = NoResultsMessage, previousResultsEl = Cleared\<rparr>, h)
          else
            let (sortedResults, h1) = new_array elems h;
                h2 = sort_in_place sortedResults h1
            in (case cells h2 sortedResults of
                  Some (latest # rest) \<Rightarrow>
                    let (previousResults, h3) = new_array rest h2
                    in Inr (\<lparr>latestResultEl = LatestCard latest,
                             previousResultsEl =
                               (if 0 < length rest then ResultsGrid rest else NoPreviousMessage)\<rparr>,
                            h3)
                | _ \<Rightarrow> Inl TypeError))"

text \<open>
  The sort key of the specification: the numeric value of the draw number, for a draw
  number that has one.
\<close>

definition numeric :: "jsval \<Rightarrow> bool" where
  "numeric v = (case ToNumber v of Fin q \<Rightarrow> True | _ \<Rightarrow> False)"

definition draw_key :: "draw_record \<Rightarrow> rat" where
  "draw_key r = (case ToNumber (drawNumber r) of Fin q \<Rightarrow> q | _ \<Rightarrow> 0)"

section \<open>The date formatter\<close>

text \<open>
  \<open>formatDate\<close> relies on two services of the host: the parser behind \<open>new Date(string)\<close>,
  which gives a time value or \<open>NaN\<close> (\<open>None\<close>) and never throws, and the \<open>pt-BR\<close> rendering
  of a time value. Both are parameters. On a Date whose time value is \<open>NaN\<close>,
  \<open>toLocaleDateString\<close> returns the string \<open>Invalid Date\<close>; it does not throw.
\<close>

type_synonym time_value = int

definition new_Date :: "(jsstring \<Rightarrow> time_value option) \<Rightarrow> jsstring \<Rightarrow> time_value option" where
  "new_Date dateParse dateStr = dateParse dateStr"

definition toLocaleDateString ::
  "(time_value \<Rightarrow> jsstring) \<Rightarrow> time_value option \<Rightarrow> error + jsstring" where
  "toLocaleDateString render tv =
     (case tv of None \<Rightarrow> Inr (js ''Invalid Date'') | Some t \<Rightarrow> Inr (render t))"

text \<open>
  \<open>formatDate(dateStr)\<close>; a missing date is \<open>None\<close>. The \<open>Inl\<close> case is the \<open>catch\<close>.
\<close>

definition formatDate ::
  "(jsstring \<Rightarrow> time_value option) \<Rightarrow> (time_value \<Rightarrow> jsstring) \<Rightarrow> jsstring option \<Rightarrow> jsstring" where
  "formatDate dateParse render dateStr =
     (case dateStr of
        None \<Rightarrow> js ''Desconhecida''
      | Some s \<Rightarrow>
          if s = [] then js ''Desconhecida''
          else (case toLocaleDateString render (new_Date dateParse s) of
                  Inr text \<Rightarrow> text
                | Inl e \<Rightarrow> s))"

section \<open>Properties of the CSV row parser\<close>

lemma trimEnd_idem: "trimEnd (trimEnd s) = trimEnd s"
  by (simp add: trimEnd_def)

lemma trimStart_trimEnd:
  "trimStart (trimEnd (trimStart s)) = trimEnd (trimStart s)"
proof (cases "trimStart s")
  case Nil
  show ?thesis unfolding Nil by (simp add: trimEnd_def trimStart_def)
next
  case (Cons x xs)
  have nx: "\<not> isWhiteSpace x"
    using Cons hd_dropWhile [of isWhiteSpace s] by (auto simp: trimStart_def)
  have "\<exists>ys. trimEnd (x # xs) = x # ys"
    using nx by (simp add: trimEnd_def dropWhile_append) (metis rev_rev_ident)
  then obtain ys where "trimEnd (x # xs) = x # ys" ..
  then show ?thesis using nx Cons by (simp add: trimStart_def)
qed

lemma trim_idem: "trim (trim s) = trim s"
  by (simp add: trim_def trimStart_trimEnd trimEnd_idem)

lemma set_trim: "set (trim s) \<subseteq> set s"
proof -
  have "set (trimEnd t) \<subseteq> set t" for t
    using set_dropWhileD [of _ isWhiteSpace "rev t"] by (auto simp: trimEnd_def)
  moreover have "set (trimStart s) \<subseteq> set s"
    using set_dropWhileD [of _ isWhiteSpace s] by (auto simp: trimStart_def)
  ultimately show ?thesis unfolding trim_def by blast
qed

lemma parseCSVLine_loop_length:
  "length (parseCSVLine_loop line vals current q) =
     length vals + 1 + separators q line"
  by (induction line arbitrary: vals current q) simp_all

lemma parseCSVLine_loop_trimmed:
  "map trim vals = vals \<Longrightarrow>
   map trim (parseCSVLine_loop line vals current q) =
     parseCSVLine_loop line vals current q"
  by (induction line arbitrary: vals current q) (simp_all add: trim_idem)

lemma parseCSVLine_loop_no_quote:
  "\<forall>v\<in>set vals. DQUOTE \<notin> set v \<Longrightarrow> DQUOTE \<notin> set current \<Longrightarrow>
   \<forall>f\<in>set (parseCSVLine_loop line vals current q). DQUOTE \<notin> set f"
proof (induction line arbitrary: vals current q)
  case Nil
  then show ?case using set_trim [of current] by auto
next
  case (Cons ch rest)
  have t: "DQUOTE \<notin> set (trim current)"
    using Cons.prems(2) set_trim [of current] by auto
  show ?case
  proof (cases "ch = DQUOTE")
    case True
    then show ?thesis using Cons.IH [OF Cons.prems] by simp
  next
    case False
    then show ?thesis
      using Cons.IH [of "vals @ [trim current]" "[]"] Cons.IH [of vals "current @ [ch]"]
        Cons.prems t
      by simp
  qed
qed

lemma parseCSVLine_loop_open_quote:
  "DQUOTE \<notin> set t \<Longrightarrow> parseCSVLine_loop t vals current True = vals @ [trim (current @ t)]"
  by (induction t arbitrary: current) auto

lemma parseCSVLine_loop_unterminated:
  "\<not> in_quotes q pre \<Longrightarrow> DQUOTE \<notin> set t \<Longrightarrow>
   parseCSVLine_loop (pre @ COMMA # DQUOTE # t) vals current q =
     parseCSVLine_loop pre vals current q @ [trim t]"
proof (induction pre arbitrary: vals current q)
  case Nil
  then show ?case by (simp add: parseCSVLine_loop_open_quote)
next
  case (Cons ch rest)
  show ?case
  proof (cases "ch = DQUOTE")
    case True
    then show ?thesis using Cons.IH [of "\<not> q" vals current] Cons.prems by simp
  next
    case False
    then have "\<not> in_quotes q rest" using Cons.prems by simp
    then show ?thesis using False Cons.IH [of q] Cons.prems(2) by auto
  qed
qed

text \<open>
  C9: for every line the row parser returns a sequence of trimmed fields, one more than
  the line has commas outside quoted mode. The parser has no failing branch, and a quote
  that is opened and never closed does not lose the last field: after a separator, the
  rest of the line, commas included, is one field.
\<close>

theorem parseCSVLine_field_count:
  "length (parseCSVLine line) = 1 + separators False line
   \<and> map trim (parseCSVLine line) = parseCSVLine line
   \<and> (\<not> in_quotes False line \<and> DQUOTE \<notin> set t \<longrightarrow>
        parseCSVLine (line @ COMMA # DQUOTE # t) = parseCSVLine line @ [trim t])"
proof -
  have "map trim (parseCSVLine line) = parseCSVLine line"
    unfolding parseCSVLine_def by (rule parseCSVLine_loop_trimmed) simp
  moreover have "length (parseCSVLine line) = 1 + separators False line"
    by (simp add: parseCSVLine_def parseCSVLine_loop_length)
  moreover have "parseCSVLine (line @ COMMA # DQUOTE # t) = parseCSVLine line @ [trim t]"
    if "\<not> in_quotes False line" "DQUOTE \<notin> set t"
    unfolding parseCSVLine_def using that by (rule parseCSVLine_loop_unterminated)
  ultimately show ?thesis by blast
qed

theorem parseCSVLine_field_count_witness:
  "parseCSVLine (js ''a, b'' @ COMMA # DQUOTE # js ''c,d '') = [js ''a'', js ''b'', js ''c,d'']
   \<and> length (parseCSVLine (js ''a, b'' @ COMMA # DQUOTE # js ''c,d '')) =
       1 + separators False (js ''a, b'' @ COMMA # DQUOTE # js ''c,d '')"
  using parseCSVLine_field_count [of "js ''a, b''" "js ''c,d ''"]
    parseCSVLine_field_count [of "js ''a, b'' @ COMMA # DQUOTE # js ''c,d ''"]
  by (simp add: parseCSVLine_def js_def cu_def trim_def trimStart_def trimEnd_def
      isWhiteSpace_def)

text \<open>
  C10: no field the row parser returns contains a double quote; a quoted field such as
  \<open>"a,b"\<close> comes out as \<open>a,b\<close>.
\<close>

theorem parseCSVLine_strips_quotes:
  "(\<forall>f\<in>set (parseCSVLine line). DQUOTE \<notin> set f)
   \<and> parseCSVLine (DQUOTE # js ''a,b'' @ [DQUOTE]) = [js ''a,b'']"
proof -
  have "parseCSVLine (DQUOTE # js ''a,b'' @ [DQUOTE]) = [js ''a,b'']"
    by (simp add: parseCSVLine_def js_def cu_def trim_def trimStart_def trimEnd_def
        isWhiteSpace_def)
  moreover have "\<forall>f\<in>set (parseCSVLine line). DQUOTE \<notin> set f"
    unfolding parseCSVLine_def by (rule parseCSVLine_loop_no_quote) simp_all
  ultimately show ?thesis by blast
qed

theorem parseCSVLine_strips_quotes_witness:
  "list_all (\<lambda>f. DQUOTE \<notin> set f)
     (parseCSVLine (js ''1,'' @ DQUOTE # js ''2,3'' @ DQUOTE # js '',4''))"
  using parseCSVLine_strips_quotes [of "js ''1,'' @ DQUOTE # js ''2,3'' @ DQUOTE # js '',4''"]
  by (simp add: list_all_iff)

section \<open>Properties of the record extractor\<close>

lemma split_from_no_sep: "c \<notin> set l \<Longrightarrow> split_from c cur l = [cur @ l]"
  by (induction l arbitrary: cur) auto

lemma split_from_sep:
  "c \<notin> set l \<Longrightarrow> split_from c cur (l @ c # rest) = (cur @ l) # split_from c [] rest"
  by (induction l arbitrary: cur) auto

lemma split_join_lines:
  "ls \<noteq> [] \<Longrightarrow> \<forall>l\<in>set ls. LF \<notin> set l \<Longrightarrow> split_on LF (join_lines ls) = ls"
proof (induction ls rule: join_lines.induct)
  case 1
  then show ?case by simp
next
  case (2 l)
  then show ?case by (simp add: split_on_def split_from_no_sep)
next
  case (3 l k ks)
  then show ?case by (simp add: split_on_def split_from_sep)
qed

lemma split_from_nonempty: "\<exists>p ps. split_from c cur s = p # ps"
  by (induction s arbitrary: cur) auto

lemma split_from_two:
  "c \<in> set s \<Longrightarrow> \<exists>a b rest. split_from c cur s = a # b # rest"
proof (induction s arbitrary: cur)
  case Nil
  then show ?case by simp
next
  case (Cons x xs)
  show ?case
  proof (cases "x = c")
    case True
    obtain p ps where "split_from c [] xs = p # ps"
      using split_from_nonempty by blast
    then show ?thesis using True by simp
  next
    case False
    then show ?thesis using Cons by auto
  qed
qed

lemma isoDate_of_total: "\<exists>s. isoDate_of dateStr = Inr s"
proof (cases "SLASH \<in> set dateStr")
  case True
  then obtain a b rest where "split_on SLASH dateStr = a # b # rest"
    unfolding split_on_def using split_from_two by blast
  then show ?thesis using True by (simp add: isoDate_of_def)
next
  case False
  then show ?thesis by (simp add: isoDate_of_def)
qed

lemma parse_row_total: "\<exists>r. parse_row line = Inr r"
  using isoDate_of_total [of "trim (parseCSVLine line ! 1)"]
  by (auto simp: parse_row_def Let_def split: option.splits sum.splits)

lemma parseCSV_loop_records:
  "parseCSV_loop ls results = Inr (results @ concat (map row_records ls))"
proof (induction ls arbitrary: results)
  case Nil
  show ?case by simp
next
  case (Cons l ls)
  obtain r where "parse_row l = Inr r" using parse_row_total by blast
  then show ?case using Cons.IH by (cases r) (simp_all add: row_records_def)
qed

lemma row_records_empty: "row_records [] = []"
  by (simp add: row_records_def parse_row_def parseCSVLine_def)

lemma concat_row_records_filter:
  "concat (map row_records (filter (\<lambda>l. l \<noteq> []) ls)) = concat (map row_records ls)"
  by (induction ls) (simp_all add: row_records_empty)

lemma parseCSV_join_lines:
  assumes "header \<noteq> []" "LF \<notin> set header" "\<forall>l\<in>set ls. LF \<notin> set l"
  shows "parseCSV (join_lines (header # ls)) = Inr (concat (map row_records ls))"
proof -
  have "split_on LF (join_lines (header # ls)) = header # ls"
    using assms by (intro split_join_lines) auto
  then show ?thesis
    using assms(1)
    by (simp add: parseCSV_def parseCSV_loop_records concat_row_records_filter)
qed

lemma parseCSV_total: "\<exists>rs. parseCSV csvText = Inr rs"
  by (simp add: parseCSV_def parseCSV_loop_records)

lemmas string_eval = js_def cu_def trim_def trimStart_def trimEnd_def isWhiteSpace_def
lemmas parse_eval = parseCSVLine_def parse_row_def parseInt_def isDigit_def digitValue_def
  decimalValue_def isoDate_of_def split_on_def padStart2_def Let_def

lemma isDigit_not_space: "isDigit c \<Longrightarrow> \<not> isWhiteSpace c \<and> c \<noteq> DASH \<and> c \<noteq> PLUS"
  by (auto simp: isDigit_def isWhiteSpace_def word_le_nat_alt)

lemma parseInt_digits:
  assumes "ds \<noteq> []" "\<forall>c\<in>set ds. isDigit c"
  shows "parseInt ds \<noteq> None"
proof -
  obtain d rest where ds: "ds = d # rest" using assms(1) by (cases ds) auto
  have d: "isDigit d" using assms(2) ds by simp
  have "trimStart ds = ds" using isDigit_not_space [OF d] ds by (simp add: trimStart_def)
  moreover have "takeWhile isDigit ds = ds" using assms(2) by simp
  ultimately show ?thesis
    using isDigit_not_space [OF d] ds by (simp add: parseInt_def Let_def)
qed

lemma parseInt_no_digits: "parseInt [] = None"
  by (simp add: parseInt_def trimStart_def)

lemma length_numbers:
  "length (map the (filter (\<lambda>n. n \<noteq> None) (map parseInt fs))) =
     length (filter (\<lambda>f. parseInt f \<noteq> None) fs)"
  by (simp add: filter_map comp_def)

lemma parse_row_accept:
  assumes "\<not> length (parseCSVLine line) < 7"
    and "parseInt (filter isDigit (parseCSVLine line ! 0)) = Some n"
    and "length (map the (filter (\<lambda>n. n \<noteq> None)
           (map parseInt (take 5 (drop 2 (parseCSVLine line)))))) = 5"
    and "isoDate_of (trim (parseCSVLine line ! 1)) = Inr d"
  shows "parse_row line = Inr (Some \<lparr>drawNumber = Num n, date = d,
     numbers = map the (filter (\<lambda>n. n \<noteq> None)
           (map parseInt (take 5 (drop 2 (parseCSVLine line)))))\<rparr>)"
  unfolding parse_row_def Let_def
  by (simp only: assms if_False if_True option.case sum.case simp_thms)

lemma well_formed_parse_row:
  assumes "well_formed line"
  shows "\<exists>r. parse_row line = Inr (Some r) \<and> length (numbers r) = 5"
proof -
  let ?row = "parseCSVLine line"
  let ?numbers = "map the (filter (\<lambda>n. n \<noteq> None) (map parseInt (take 5 (drop 2 ?row))))"
  have len: "7 \<le> length ?row" using assms by (simp add: well_formed_def)
  have "filter isDigit (?row ! 0) \<noteq> []"
    using assms by (auto simp: well_formed_def filter_empty_conv)
  moreover have "\<forall>c\<in>set (filter isDigit (?row ! 0)). isDigit c" by simp
  ultimately have "parseInt (filter isDigit (?row ! 0)) \<noteq> None" by (rule parseInt_digits)
  then obtain n where n: "parseInt (filter isDigit (?row ! 0)) = Some n" by blast
  have all: "filter (\<lambda>f. parseInt f \<noteq> None) (take 5 (drop 2 ?row)) = take 5 (drop 2 ?row)"
    using assms by (simp add: well_formed_def list_all_iff)
  have "length (take 5 (drop 2 ?row)) = 5" using len by simp
  then have five: "length ?numbers = 5" unfolding length_numbers all .
  obtain d where d: "isoDate_of (trim (?row ! 1)) = Inr d"
    using isoDate_of_total by blast
  have short: "\<not> length ?row < 7" using len by linarith
  let ?r = "\<lparr>drawNumber = Num n, date = d, numbers = ?numbers\<rparr>"
  have "parse_row line = Inr (Some ?r)"
    by (rule parse_row_accept [OF short n five d])
  moreover have "length (numbers ?r) = 5"
    by (simp only: draw_record.select_convs five)
  ultimately show ?thesis by blast
qed

text \<open>
  C1: after any header line, the data line \<open>1234,01/02/2023,10,20,30,40,50\<close> yields exactly
  the record with draw number 1234, date \<open>2023-02-01\<close> and numbers 10, 20, 30, 40, 50: the
  date is read as day/month/year and written back as year-month-day, month and day
  padded to two digits, so that \<open>1/2/2023\<close> gives the same record.
\<close>

theorem parseCSV_example:
  assumes "header \<noteq> []" "LF \<notin> set header"
  shows "parseCSV (header @ LF # js ''1234,01/02/2023,10,20,30,40,50'') =
       Inr [\<lparr>drawNumber = Num 1234, date = js ''2023-02-01'', numbers = [10, 20, 30, 40, 50]\<rparr>]
     \<and> parseCSV (header @ LF # js ''1234,1/2/2023,10,20,30,40,50'') =
       Inr [\<lparr>drawNumber = Num 1234, date = js ''2023-02-01'', numbers = [10, 20, 30, 40, 50]\<rparr>]"
proof -
  let ?r = "\<lparr>drawNumber = Num 1234, date = js ''2023-02-01'', numbers = [10, 20, 30, 40, 50]\<rparr>"
  let ?line = "js ''1234,01/02/2023,10,20,30,40,50''"
  let ?short = "js ''1234,1/2/2023,10,20,30,40,50''"
  have row: "parse_row ?line = Inr (Some ?r)"
    by (simp add: string_eval parse_eval)
  have short: "parse_row ?short = Inr (Some ?r)"
    by (simp add: string_eval parse_eval)
  have "LF \<notin> set ?line" by (simp add: js_def cu_def)
  then have "parseCSV (join_lines [header, ?line]) = Inr (concat (map row_records [?line]))"
    using assms by (intro parseCSV_join_lines) simp_all
  moreover have "LF \<notin> set ?short" by (simp add: js_def cu_def)
  then have "parseCSV (join_lines [header, ?short]) = Inr (concat (map row_records [?short]))"
    using assms by (intro parseCSV_join_lines) simp_all
  ultimately show ?thesis by (simp add: row_records_def row short)
qed

theorem parseCSV_example_witness:
  "parseCSV (js ''Concurso,Data,N1,N2,N3,N4,N5'' @ LF # js ''1234,01/02/2023,10,20,30,40,50'') =
     Inr [\<lparr>drawNumber = Num 1234, date = js ''2023-02-01'', numbers = [10, 20, 30, 40, 50]\<rparr>]"
  using parseCSV_example [of "js ''Concurso,Data,N1,N2,N3,N4,N5''"]
  by (simp add: js_def cu_def)

text \<open>
  C2: a CSV text made of a header line and N well-formed data lines yields N records, each
  with 5 numbers, the i-th record being the one built from the i-th data line.
\<close>

theorem parseCSV_well_formed_lines:
  assumes "header \<noteq> []" "LF \<notin> set header"
    and "\<forall>l\<in>set ls. LF \<notin> set l \<and> well_formed l"
  shows "\<exists>rs. parseCSV (join_lines (header # ls)) = Inr rs
     \<and> length rs = length ls
     \<and> (\<forall>r\<in>set rs. length (numbers r) = 5)
     \<and> (\<forall>i<length ls. parse_row (ls ! i) = Inr (Some (rs ! i)))"
proof -
  define f where "f l = hd (row_records l)" for l
  have one: "parse_row l = Inr (Some (f l)) \<and> length (numbers (f l)) = 5 \<and> row_records l = [f l]"
    if "l \<in> set ls" for l
    using well_formed_parse_row [of l] that assms(3) by (auto simp: f_def row_records_def)
  have eq: "map row_records ls = map (\<lambda>l. [f l]) ls"
    using one by (intro map_cong) auto
  have "concat (map row_records ls) = map f ls"
    unfolding eq by simp
  then have "parseCSV (join_lines (header # ls)) = Inr (map f ls)"
    using parseCSV_join_lines [of header ls] assms by simp
  moreover have "\<forall>r\<in>set (map f ls). length (numbers r) = 5" using one by auto
  moreover have "\<forall>i<length ls. parse_row (ls ! i) = Inr (Some (map f ls ! i))"
    using one by simp
  ultimately show ?thesis by (intro exI [of _ "map f ls"]) simp
qed

theorem parseCSV_well_formed_lines_witness:
  "well_formed (js ''1234,01/02/2023,10,20,30,40,50'')
   \<and> well_formed (js ''No. 1235, 2/2/2023 ,11,21,31,41,51,extra'')
   \<and> (\<exists>rs. parseCSV (join_lines [js ''Concurso,Data,N1,N2,N3,N4,N5'',
            js ''1234,01/02/2023,10,20,30,40,50'',
            js ''No. 1235, 2/2/2023 ,11,21,31,41,51,extra'']) = Inr rs
         \<and> length rs = 2
         \<and> parse_row (js ''No. 1235, 2/2/2023 ,11,21,31,41,51,extra'') = Inr (Some (rs ! 1)))"
proof -
  let ?h = "js ''Concurso,Data,N1,N2,N3,N4,N5''"
  let ?a = "js ''1234,01/02/2023,10,20,30,40,50''"
  let ?b = "js ''No. 1235, 2/2/2023 ,11,21,31,41,51,extra''"
  have a: "well_formed ?a"
    by (simp add: well_formed_def string_eval parseCSVLine_def parseInt_def isDigit_def)
  have b: "well_formed ?b"
    by (simp add: well_formed_def string_eval parseCSVLine_def parseInt_def isDigit_def)
  have lf: "LF \<notin> set ?h \<and> LF \<notin> set ?a \<and> LF \<notin> set ?b \<and> ?h \<noteq> []"
    by (simp add: js_def cu_def)
  show ?thesis
    using parseCSV_well_formed_lines [of ?h "[?a, ?b]"] a b lf by auto
qed

text \<open>
  C3: a data line with fewer than 7 fields, with no digit in its first field, or with
  fewer than 5 of the fields 2 to 6 parsing as integers is skipped: the loop body pushes
  nothing for it, and the text yields what it yields without that line.
\<close>

theorem parseCSV_rejects:
  assumes "header \<noteq> []" "LF \<notin> set header"
    and "\<forall>l\<in>set (pre @ line # post). LF \<notin> set l"
    and "length (parseCSVLine line) < 7
       \<or> \<not> (\<exists>c\<in>set (parseCSVLine line ! 0). isDigit c)
       \<or> length (filter (\<lambda>f. parseInt f \<noteq> None) (take 5 (drop 2 (parseCSVLine line)))) < 5"
  shows "parse_row line = Inr None
     \<and> parseCSV (join_lines (header # pre @ line # post)) =
        parseCSV (join_lines (header # pre @ post))"
proof -
  let ?row = "parseCSVLine line"
  have none: "parse_row line = Inr None"
  proof (cases "length ?row < 7")
    case True
    then show ?thesis by (simp add: parse_row_def)
  next
    case long: False
    show ?thesis
    proof (cases "\<exists>c\<in>set (?row ! 0). isDigit c")
      case False
      then have "filter isDigit (?row ! 0) = []" by (auto simp: filter_empty_conv)
      then show ?thesis using long by (simp add: parse_row_def parseInt_no_digits)
    next
      case True
      then have "length (filter (\<lambda>f. parseInt f \<noteq> None) (take 5 (drop 2 ?row))) < 5"
        using assms(4) long by blast
      then have "length (map the (filter (\<lambda>n. n \<noteq> None)
          (map parseInt (take 5 (drop 2 ?row))))) \<noteq> 5"
        unfolding length_numbers by linarith
      then show ?thesis
        unfolding parse_row_def Let_def by (simp split: option.splits)
    qed
  qed
  then have "row_records line = []" by (simp add: row_records_def)
  then have "concat (map row_records (pre @ line # post)) = concat (map row_records (pre @ post))"
    by simp
  moreover have "parseCSV (join_lines (header # pre @ line # post)) =
      Inr (concat (map row_records (pre @ line # post)))"
    using assms by (intro parseCSV_join_lines) simp_all
  moreover have "parseCSV (join_lines (header # pre @ post)) =
      Inr (concat (map row_records (pre @ post)))"
    using assms by (intro parseCSV_join_lines) simp_all
  ultimately show ?thesis using none by simp
qed

theorem parseCSV_rejects_witness:
  "parse_row (js ''1235,02/02/2023,10,20,x,40,50'') = Inr None
   \<and> parseCSV (join_lines [js ''Concurso,Data,N1,N2,N3,N4,N5'',
         js ''1234,01/02/2023,10,20,30,40,50'', js ''1235,02/02/2023,10,20,x,40,50'']) =
      parseCSV (join_lines [js ''Concurso,Data,N1,N2,N3,N4,N5'',
         js ''1234,01/02/2023,10,20,30,40,50''])"
proof -
  let ?h = "js ''Concurso,Data,N1,N2,N3,N4,N5''"
  let ?a = "js ''1234,01/02/2023,10,20,30,40,50''"
  let ?b = "js ''1235,02/02/2023,10,20,x,40,50''"
  have bad: "length (filter (\<lambda>f. parseInt f \<noteq> None) (take 5 (drop 2 (parseCSVLine ?b)))) < 5"
    by (simp add: string_eval parseCSVLine_def parseInt_def isDigit_def)
  have lf: "LF \<notin> set ?h \<and> LF \<notin> set ?a \<and> LF \<notin> set ?b \<and> ?h \<noteq> []"
    by (simp add: js_def cu_def)
  show ?thesis
    using parseCSV_rejects [of ?h "[?a]" ?b "[]"] bad lf by simp
qed

section \<open>Properties of the result merger\<close>

lemma loose_eq_refl: "loose_eq v v"
  by (cases v) simp_all

lemma loose_eq_Num: "isNum a \<Longrightarrow> isNum b \<Longrightarrow> loose_eq a b \<longleftrightarrow> a = b"
  by (cases a; cases b) simp_all

lemma merge_forEach_snoc:
  "merge_forEach A (R @ [r]) =
     (case find (\<lambda>m. loose_eq (drawNumber m) (drawNumber r)) (merge_forEach A R) of
        None \<Rightarrow> merge_forEach A R @ [r]
      | Some m \<Rightarrow> merge_forEach A R)"
  by (induction R arbitrary: A) (simp_all split: option.splits)

lemma set_merge_forEach_lower: "set A \<subseteq> set (merge_forEach A R)"
proof (induction R arbitrary: A)
  case Nil
  show ?case by simp
next
  case (Cons r R)
  show ?case using Cons.IH [of A] Cons.IH [of "A @ [r]"] by (auto split: option.splits)
qed

lemma set_merge_forEach_upper: "set (merge_forEach A R) \<subseteq> set A \<union> set R"
proof (induction R arbitrary: A)
  case Nil
  show ?case by simp
next
  case (Cons r R)
  show ?case using Cons.IH [of A] Cons.IH [of "A @ [r]"] by (auto split: option.splits)
qed

lemma merge_forEach_covers:
  "r \<in> set R \<Longrightarrow> \<exists>m\<in>set (merge_forEach A R). loose_eq (drawNumber m) (drawNumber r)"
proof (induction R arbitrary: A)
  case Nil
  then show ?case by simp
next
  case (Cons x R)
  show ?case
  proof (cases "r \<in> set R")
    case True
    then show ?thesis using Cons.IH [of A] Cons.IH [of "A @ [x]"] by (simp split: option.splits)
  next
    case False
    then have rx: "r = x" using Cons.prems by simp
    show ?thesis
    proof (cases "find (\<lambda>m. loose_eq (drawNumber m) (drawNumber x)) A")
      case None
      have "x \<in> set (merge_forEach (A @ [x]) R)"
        using set_merge_forEach_lower [of "A @ [x]" R] by auto
      then show ?thesis using None rx loose_eq_refl by auto
    next
      case (Some m)
      then have "m \<in> set A \<and> loose_eq (drawNumber m) (drawNumber x)"
        by (auto simp: find_Some_iff)
      then show ?thesis using Some rx set_merge_forEach_lower [of A R] by auto
    qed
  qed
qed

lemma merge_forEach_all_found:
  "\<forall>r\<in>set R. \<exists>m\<in>set A. loose_eq (drawNumber m) (drawNumber r) \<Longrightarrow> merge_forEach A R = A"
proof (induction R)
  case Nil
  show ?case by simp
next
  case (Cons r R)
  have "find (\<lambda>m. loose_eq (drawNumber m) (drawNumber r)) A \<noteq> None"
    using Cons.prems by (auto simp: find_None_iff)
  then show ?case using Cons by (auto split: option.splits)
qed

text \<open>
  C5: merging the same remote records into an already merged result changes nothing, so
  the number of records does not grow.
\<close>

theorem merge_idempotent:
  "mergeResults (mergeResults L R) R = mergeResults L R
   \<and> length (mergeResults (mergeResults L R) R) = length (mergeResults L R)"
proof -
  have "merge_forEach (merge_forEach L R) R = merge_forEach L R"
    by (rule merge_forEach_all_found) (simp add: merge_forEach_covers)
  then show ?thesis by (simp add: mergeResults_def)
qed

lemma is_new_snoc_old:
  "j < length R \<Longrightarrow> is_new L (R @ [r]) j = is_new L R j"
  by (simp add: is_new_def nth_append list_all_iff)

lemma new_indices_snoc:
  "map (\<lambda>j. (R @ [r]) ! j) (filter (is_new L (R @ [r])) [0..<length R]) =
   map (\<lambda>j. R ! j) (filter (is_new L R) [0..<length R])"
proof -
  have "filter (is_new L (R @ [r])) [0..<length R] = filter (is_new L R) [0..<length R]"
    by (rule filter_cong) (simp_all add: is_new_snoc_old)
  moreover have "map (\<lambda>j. (R @ [r]) ! j) (filter (is_new L R) [0..<length R]) =
      map (\<lambda>j. R ! j) (filter (is_new L R) [0..<length R])"
    by (rule map_cong) (simp_all add: nth_append)
  ultimately show ?thesis by simp
qed

lemma found_iff_not_new:
  assumes "\<forall>x\<in>set (R @ [r]). isNum (drawNumber x)"
  shows "find (\<lambda>m. loose_eq (drawNumber m) (drawNumber r)) (merge_forEach L R) = None
     \<longleftrightarrow> is_new L (R @ [r]) (length R)"
proof
  assume none: "find (\<lambda>m. loose_eq (drawNumber m) (drawNumber r)) (merge_forEach L R) = None"
  then have no: "\<And>m. m \<in> set (merge_forEach L R) \<Longrightarrow> \<not> loose_eq (drawNumber m) (drawNumber r)"
    by (auto simp: find_None_iff)
  have "\<not> loose_eq (drawNumber l) (drawNumber r)" if "l \<in> set L" for l
    using no that set_merge_forEach_lower [of L R] by auto
  moreover have "drawNumber (R ! i) \<noteq> drawNumber r" if i: "i < length R" for i
  proof
    assume eq: "drawNumber (R ! i) = drawNumber r"
    obtain m where "m \<in> set (merge_forEach L R)" "loose_eq (drawNumber m) (drawNumber (R ! i))"
      using merge_forEach_covers [of "R ! i" R L] nth_mem [OF i] by blast
    then show False using no eq by auto
  qed
  ultimately show "is_new L (R @ [r]) (length R)"
    by (simp add: is_new_def list_all_iff nth_append)
next
  assume new: "is_new L (R @ [r]) (length R)"
  have "\<not> loose_eq (drawNumber m) (drawNumber r)" if "m \<in> set (merge_forEach L R)" for m
  proof (cases "m \<in> set L")
    case True
    then show ?thesis using new by (simp add: is_new_def list_all_iff)
  next
    case False
    then have "m \<in> set R" using that set_merge_forEach_upper [of L R] by auto
    then obtain i where i: "i < length R" "R ! i = m" by (auto simp: in_set_conv_nth)
    then have "drawNumber m \<noteq> drawNumber r"
      using new by (auto simp: is_new_def list_all_iff nth_append)
    moreover have "isNum (drawNumber m)" "isNum (drawNumber r)"
      using assms \<open>m \<in> set R\<close> by auto
    ultimately show ?thesis by (simp add: loose_eq_Num)
  qed
  then show "find (\<lambda>m. loose_eq (drawNumber m) (drawNumber r)) (merge_forEach L R) = None"
    by (auto simp: find_None_iff)
qed

lemmas number_eval = StringToNumber_def nonDecimalIntegerLiteral_def strDecimalLiteral_def
  strUnsignedDecimalLiteral_def exponentPart_def signedInteger_def scale10_def isDigit_def
  decimalValue_def digitValue_def js_def cu_def trim_def trimStart_def trimEnd_def
  isWhiteSpace_def Let_def

text \<open>
  C4, amended: when the remote records carry Numbers as draw numbers, the merger returns
  the local records in their order, followed in remote order by each remote record whose
  draw number is not loosely equal to the draw number of any local record and is not the
  draw number of an earlier remote record.
\<close>

theorem merge_keeps_first:
  assumes "\<forall>r\<in>set R. isNum (drawNumber r)"
  shows "mergeResults L R = L @ map (\<lambda>j. R ! j) (filter (is_new L R) [0..<length R])"
  using assms
proof (induction R rule: rev_induct)
  case Nil
  show ?case by (simp add: mergeResults_def)
next
  case (snoc r R)
  have IH: "merge_forEach L R = L @ map (\<lambda>j. R ! j) (filter (is_new L R) [0..<length R])"
    using snoc by (simp add: mergeResults_def)
  have split: "map (\<lambda>j. (R @ [r]) ! j) (filter (is_new L (R @ [r])) [0..<length (R @ [r])]) =
      map (\<lambda>j. R ! j) (filter (is_new L R) [0..<length R])
        @ (if is_new L (R @ [r]) (length R) then [r] else [])"
    using new_indices_snoc [of R r L] by simp
  show ?case
  proof (cases "is_new L (R @ [r]) (length R)")
    case True
    then have "find (\<lambda>m. loose_eq (drawNumber m) (drawNumber r)) (merge_forEach L R) = None"
      using found_iff_not_new [OF snoc.prems] by simp
    then show ?thesis
      unfolding mergeResults_def merge_forEach_snoc split using True IH by simp
  next
    case False
    then have "find (\<lambda>m. loose_eq (drawNumber m) (drawNumber r)) (merge_forEach L R) \<noteq> None"
      using found_iff_not_new [OF snoc.prems] by simp
    then show ?thesis
      unfolding mergeResults_def merge_forEach_snoc split using False IH by auto
  qed
qed

theorem merge_keeps_first_witness:
  "mergeResults
     [\<lparr>drawNumber = Num 5, date = js ''2023-02-01'', numbers = [1, 2, 3, 4, 5]\<rparr>]
     [\<lparr>drawNumber = Num 5, date = js ''2023-02-01'', numbers = [6, 7, 8, 9, 10]\<rparr>,
      \<lparr>drawNumber = Num 6, date = js ''2023-02-02'', numbers = [11, 12, 13, 14, 15]\<rparr>] =
     [\<lparr>drawNumber = Num 5, date = js ''2023-02-01'', numbers = [1, 2, 3, 4, 5]\<rparr>,
      \<lparr>drawNumber = Num 6, date = js ''2023-02-02'', numbers = [11, 12, 13, 14, 15]\<rparr>]
   \<and> mergeResults
     [\<lparr>drawNumber = Str (js '' 5''), date = js ''2023-02-01'', numbers = [1, 2, 3, 4, 5]\<rparr>]
     [\<lparr>drawNumber = Num 5, date = js ''2023-02-01'', numbers = [6, 7, 8, 9, 10]\<rparr>,
      \<lparr>drawNumber = Num 6, date = js ''2023-02-02'', numbers = [11, 12, 13, 14, 15]\<rparr>] =
     [\<lparr>drawNumber = Str (js '' 5''), date = js ''2023-02-01'', numbers = [1, 2, 3, 4, 5]\<rparr>,
      \<lparr>drawNumber = Num 6, date = js ''2023-02-02'', numbers = [11, 12, 13, 14, 15]\<rparr>]"
  using
    merge_keeps_first [of
      "[\<lparr>drawNumber = Num 5, date = js ''2023-02-01'', numbers = [6, 7, 8, 9, 10]\<rparr>,
        \<lparr>drawNumber = Num 6, date = js ''2023-02-02'', numbers = [11, 12, 13, 14, 15]\<rparr>]"
      "[\<lparr>drawNumber = Num 5, date = js ''2023-02-01'', numbers = [1, 2, 3, 4, 5]\<rparr>]"]
    merge_keeps_first [of
      "[\<lparr>drawNumber = Num 5, date = js ''2023-02-01'', numbers = [6, 7, 8, 9, 10]\<rparr>,
        \<lparr>drawNumber = Num 6, date = js ''2023-02-02'', numbers = [11, 12, 13, 14, 15]\<rparr>]"
      "[\<lparr>drawNumber = Str (js '' 5''), date = js ''2023-02-01'', numbers = [1, 2, 3, 4, 5]\<rparr>]"]
  by (simp add: is_new_def number_eval)

text \<open>
  The claim as first stated compares a remote record with the local records only; two
  remote records with one draw number refute it.
\<close>

theorem merge_remote_duplicates_counterexample:
  "mergeResults []
     [\<lparr>drawNumber = Num 5, date = js ''2023-02-01'', numbers = [1, 2, 3, 4, 5]\<rparr>,
      \<lparr>drawNumber = Num 5, date = js ''2023-02-01'', numbers = [6, 7, 8, 9, 10]\<rparr>] \<noteq>
   [] @ filter (not_in_local [])
     [\<lparr>drawNumber = Num 5, date = js ''2023-02-01'', numbers = [1, 2, 3, 4, 5]\<rparr>,
      \<lparr>drawNumber = Num 5, date = js ''2023-02-01'', numbers = [6, 7, 8, 9, 10]\<rparr>]"
  by (simp add: mergeResults_def not_in_local_def)

section \<open>Properties of the renderer\<close>

lemma placed_after_key:
  "numeric (drawNumber x) \<Longrightarrow> numeric (drawNumber y) \<Longrightarrow>
   placed_after x y \<longleftrightarrow> draw_key x < draw_key y"
  by (cases "ToNumber (drawNumber x)"; cases "ToNumber (drawNumber y)")
    (simp_all add: numeric_def draw_key_def placed_after_def compareFn_def)

lemma sort_insert_insort_key:
  "\<forall>r\<in>set (x # ys). numeric (drawNumber r) \<Longrightarrow>
   sort_insert x ys = insort_key (\<lambda>r. - draw_key r) x ys"
proof (induction ys)
  case Nil
  show ?case by simp
next
  case (Cons y ys)
  have "placed_after x y \<longleftrightarrow> draw_key x < draw_key y"
    using Cons.prems by (intro placed_after_key) simp_all
  then show ?case using Cons by auto
qed

lemma Array_sort_sort_key:
  "\<forall>r\<in>set xs. numeric (drawNumber r) \<Longrightarrow>
   Array_sort xs = sort_key (\<lambda>r. - draw_key r) xs"
proof (induction xs)
  case Nil
  show ?case by (simp add: Array_sort_def)
next
  case (Cons x xs)
  have "Array_sort (x # xs) = sort_insert x (sort_key (\<lambda>r. - draw_key r) xs)"
    using Cons by (simp add: Array_sort_def)
  also have "\<dots> = insort_key (\<lambda>r. - draw_key r) x (sort_key (\<lambda>r. - draw_key r) xs)"
    using Cons.prems by (intro sort_insert_insort_key) simp
  finally show ?case by simp
qed

lemma mset_sort_insert: "mset (sort_insert x ys) = add_mset x (mset ys)"
  by (induction ys) auto

lemma mset_Array_sort: "mset (Array_sort xs) = mset xs"
  by (induction xs) (simp_all add: Array_sort_def mset_sort_insert)

lemma Array_sort_Nil_iff: "Array_sort xs = [] \<longleftrightarrow> xs = []"
  using mset_Array_sort [of xs] by (metis mset_zero_iff)

lemma displayResults_total: "\<exists>p h'. displayResults results h = Inr (p, h')"
proof (cases "case results of None \<Rightarrow> None | Some a \<Rightarrow> cells h a")
  case None
  then show ?thesis by (simp add: displayResults_def)
next
  case (Some elems)
  show ?thesis
  proof (cases "elems = []")
    case True
    then show ?thesis using Some by (simp add: displayResults_def)
  next
    case False
    then obtain latest rest where "Array_sort elems = latest # rest"
      using Array_sort_Nil_iff [of elems] by (cases "Array_sort elems") auto
    then show ?thesis
      using Some False by (simp add: displayResults_def new_array_def sort_in_place_def)
  qed
qed

text \<open>
  C6: for every non-empty collection \<open>displayResults\<close> leaves the array it was given as
  it was and shows a rearrangement of its records, the first as the latest result and
  the others as the previous results. When the draw numbers have numeric values, the
  rearrangement is the stable one by descending draw number, so the latest result has
  the highest draw number.
\<close>

theorem displayResults_sorts:
  assumes "cells h a = Some rs" "rs \<noteq> []" "a < fresh h"
  shows "\<exists>latest previous h'.
     displayResults (Some a) h =
       Inr (\<lparr>latestResultEl = LatestCard latest,
             previousResultsEl =
               (if previous = [] then NoPreviousMessage else ResultsGrid previous)\<rparr>, h')
     \<and> cells h' a = Some rs
     \<and> mset (latest # previous) = mset rs
     \<and> ((\<forall>r\<in>set rs. numeric (drawNumber r)) \<longrightarrow>
          sorted_wrt (\<lambda>x y. draw_key y \<le> draw_key x) (latest # previous)
          \<and> (\<forall>r\<in>set rs. draw_key r \<le> draw_key latest)
          \<and> (\<forall>k. filter (\<lambda>r. draw_key r = k) (latest # previous) =
                   filter (\<lambda>r. draw_key r = k) rs))"
proof -
  let ?f = "\<lambda>r. - draw_key r"
  obtain latest previous where s: "Array_sort rs = latest # previous"
    using assms(2) Array_sort_Nil_iff [of rs] by (cases "Array_sort rs") auto
  define h' where "h' = snd (new_array previous (sort_in_place (fresh h) (snd (new_array rs h))))"
  have disp: "displayResults (Some a) h =
      Inr (\<lparr>latestResultEl = LatestCard latest,
            previousResultsEl =
              (if previous = [] then NoPreviousMessage else ResultsGrid previous)\<rparr>, h')"
    using assms(1,2) s
    by (simp add: displayResults_def new_array_def sort_in_place_def h'_def)
  have kept: "cells h' a = Some rs"
    using assms(1,3) by (simp add: h'_def new_array_def sort_in_place_def)
  have perm: "mset (latest # previous) = mset rs"
    using mset_Array_sort [of rs] s by simp
  have sorted: "sorted_wrt (\<lambda>x y. draw_key y \<le> draw_key x) (latest # previous)
      \<and> (\<forall>r\<in>set rs. draw_key r \<le> draw_key latest)
      \<and> (\<forall>k. filter (\<lambda>r. draw_key r = k) (latest # previous) =
               filter (\<lambda>r. draw_key r = k) rs)"
    if num: "\<forall>r\<in>set rs. numeric (drawNumber r)"
  proof -
    have sk: "sort_key ?f rs = latest # previous"
      using Array_sort_sort_key [OF num] s by simp
    have "sorted (map ?f (sort_key ?f rs))" by (rule sorted_sort_key)
    then have ord: "sorted_wrt (\<lambda>x y. draw_key y \<le> draw_key x) (latest # previous)"
      unfolding sk by (simp add: sorted_map)
    have "set (latest # previous) = set rs" using perm by (rule mset_eq_setD)
    then have top: "\<forall>r\<in>set rs. draw_key r \<le> draw_key latest"
      using ord by auto
    have "filter (\<lambda>r. draw_key r = k) (latest # previous) =
        filter (\<lambda>r. draw_key r = k) rs" for k
      using sort_key_stable [of ?f "- k" rs] unfolding sk by simp
    then show ?thesis using ord top by blast
  qed
  show ?thesis using disp kept perm sorted by blast
qed

theorem displayResults_sorts_witness:
  "\<exists>h'. displayResults (Some 0)
       \<lparr>cells = Map.empty(0 \<mapsto>
          [\<lparr>drawNumber = Num 3, date = js ''2023-02-03'', numbers = [1, 2, 3, 4, 5]\<rparr>,
           \<lparr>drawNumber = Num 1, date = js ''2023-02-01'', numbers = [1, 2, 3, 4, 5]\<rparr>,
           \<lparr>drawNumber = Num 2, date = js ''2023-02-02'', numbers = [1, 2, 3, 4, 5]\<rparr>]),
        fresh = 1\<rparr> =
     Inr (\<lparr>latestResultEl =
             LatestCard \<lparr>drawNumber = Num 3, date = js ''2023-02-03'', numbers = [1, 2, 3, 4, 5]\<rparr>,
           previousResultsEl = ResultsGrid
             [\<lparr>drawNumber = Num 2, date = js ''2023-02-02'', numbers = [1, 2, 3, 4, 5]\<rparr>,
              \<lparr>drawNumber = Num 1, date = js ''2023-02-01'', numbers = [1, 2, 3, 4, 5]\<rparr>]\<rparr>, h')
     \<and> cells h' 0 = Some
          [\<lparr>drawNumber = Num 3, date = js ''2023-02-03'', numbers = [1, 2, 3, 4, 5]\<rparr>,
           \<lparr>drawNumber = Num 1, date = js ''2023-02-01'', numbers = [1, 2, 3, 4, 5]\<rparr>,
           \<lparr>drawNumber = Num 2, date = js ''2023-02-02'', numbers = [1, 2, 3, 4, 5]\<rparr>]"
  using displayResults_sorts [of
      "\<lparr>cells = Map.empty(0 \<mapsto>
          [\<lparr>drawNumber = Num 3, date = js ''2023-02-03'', numbers = [1, 2, 3, 4, 5]\<rparr>,
           \<lparr>drawNumber = Num 1, date = js ''2023-02-01'', numbers = [1, 2, 3, 4, 5]\<rparr>,
           \<lparr>drawNumber = Num 2, date = js ''2023-02-02'', numbers = [1, 2, 3, 4, 5]\<rparr>]),
        fresh = 1\<rparr>" 0
      "[\<lparr>drawNumber = Num 3, date = js ''2023-02-03'', numbers = [1, 2, 3, 4, 5]\<rparr>,
        \<lparr>drawNumber = Num 1, date = js ''2023-02-01'', numbers = [1, 2, 3, 4, 5]\<rparr>,
        \<lparr>drawNumber = Num 2, date = js ''2023-02-02'', numbers = [1, 2, 3, 4, 5]\<rparr>]"]
  by (simp add: displayResults_def new_array_def sort_in_place_def Array_sort_def
      placed_after_def compareFn_def numeric_def)

section \<open>Properties of the date formatter\<close>

text \<open>
  C7: what \<open>formatDate\<close> returns for a non-empty string that the host fails to parse
  as a date. Nothing is thrown on the way, the \<open>catch\<close> that returns the raw string is
  not entered, and the result is the text \<open>Invalid Date\<close>.
\<close>

theorem formatDate_invalid:
  assumes "s \<noteq> []" "dateParse s = None"
  shows "formatDate dateParse render (Some s) = js ''Invalid Date''"
  using assms by (simp add: formatDate_def new_Date_def toLocaleDateString_def)

theorem formatDate_invalid_witness:
  "formatDate (\<lambda>s. if s = js ''2023-02-01'' then Some 1675209600000 else None)
     (\<lambda>t. js ''01 de fev. de 2023'') (Some (js ''abc'')) = js ''Invalid Date''
   \<and> js ''Invalid Date'' \<noteq> js ''abc''"
  using formatDate_invalid [of "js ''abc''"
      "\<lambda>s. if s = js ''2023-02-01'' then Some 1675209600000 else None"
      "\<lambda>t. js ''01 de fev. de 2023''"]
  by (simp add: js_def cu_def)

text \<open>
  C8: an absent or empty date string is shown as \<open>Desconhecida\<close>, which is neither the
  empty string nor \<open>Invalid Date\<close>.
\<close>

theorem formatDate_unknown:
  "formatDate dateParse render None = js ''Desconhecida''
   \<and> formatDate dateParse render (Some []) = js ''Desconhecida''
   \<and> js ''Desconhecida'' \<noteq> []
   \<and> js ''Desconhecida'' \<noteq> js ''Invalid Date''"
  by (simp add: formatDate_def js_def cu_def)

end
